theory Spec2Isabelle
  imports Main
begin

section \<open>RearmableCallback (tensorpipe/common/callback.h)\<close>

subsection \<open>Callbacks, calls and the state of an instance\<close>

text \<open>
  The class is generic in the callback type \<open>F\<close> and in the argument list \<open>Args...\<close>.
  The argument tuple \<open>TStoredArgs\<close> is the type parameter \<open>'a\<close>. A callback is
  user-supplied code: it is identified by a number, and what matters of its body here is the
  sequence of calls it makes back into the same instance (\<open>[]\<close> for a callback that does
  not reenter).
\<close>

datatype 'a cb = Cb (cb_id: nat) (cb_body: "'a call list")
  and 'a call = Arm "'a cb" | Trigger 'a | TriggerIfArmed 'a

text \<open>
  The private members: \<open>std::mutex mutex_\<close> (\<open>True\<close> when it is held),
  \<open>optional<F> callback_\<close> and \<open>std::deque<TStoredArgs> queue_\<close>.
\<close>

record 'a rearmable =
  mutex :: bool
  callback :: "'a cb option"
  queue :: "'a list"

text \<open>The default-constructed instance.\<close>

definition fresh :: "'a rearmable" where
  "fresh = \<lparr>mutex = False, callback = None, queue = []\<rparr>"

definition lock :: "'a rearmable \<Rightarrow> 'a rearmable" where
  "lock s = s\<lparr>mutex := True\<rparr>"

definition unlock :: "'a rearmable \<Rightarrow> 'a rearmable" where
  "unlock s = s\<lparr>mutex := False\<rparr>"

subsection \<open>The three member functions\<close>

text \<open>
  Each member function is modelled from the acquisition of the lock up to the point where it
  either reaches \<open>cb_apply\<close> or the end of its body. The result is the state at that point
  and, when \<open>cb_apply\<close> is reached, the callback and the argument tuple it is applied to.
  The mutex is recorded in the state, so the result tells whether the call still holds it.
\<close>

definition arm :: "'a cb \<Rightarrow> 'a rearmable \<Rightarrow> 'a rearmable \<times> ('a cb \<times> 'a) option" where
  "arm f s0 =
     (let s = lock s0 in
      case queue s of
        args # rest \<Rightarrow> (unlock (s\<lparr>queue := rest\<rparr>), Some (f, args))
      | [] \<Rightarrow> (s\<lparr>callback := Some f\<rparr>, None))"

definition trigger :: "'a \<Rightarrow> 'a rearmable \<Rightarrow> 'a rearmable \<times> ('a cb \<times> 'a) option" where
  "trigger args s0 =
     (let s = lock s0 in
      case callback s of
        Some f \<Rightarrow> (unlock (s\<lparr>callback := None\<rparr>), Some (f, args))
      | None \<Rightarrow> (s\<lparr>queue := queue s @ [args]\<rparr>, None))"

definition triggerIfArmed :: "'a \<Rightarrow> 'a rearmable \<Rightarrow> 'a rearmable \<times> ('a cb \<times> 'a) option" where
  "triggerIfArmed args s0 =
     (let s = lock s0 in
      case callback s of
        Some f \<Rightarrow> (s\<lparr>callback := None\<rparr>, Some (f, args))
      | None \<Rightarrow> (s, None))"

definition perform :: "'a call \<Rightarrow> 'a rearmable \<Rightarrow> 'a rearmable \<times> ('a cb \<times> 'a) option" where
  "perform c s =
     (case c of
        Arm f \<Rightarrow> arm f s
      | Trigger args \<Rightarrow> trigger args s
      | TriggerIfArmed args \<Rightarrow> triggerIfArmed args s)"

subsection \<open>Execution of calls, with the callbacks they invoke\<close>

text \<open>
  One thread of control. The stack holds what remains to be done: \<open>Do c\<close> is a call that
  has not started, \<open>Release\<close> is the end of the scope of a call whose lock object still owns
  the mutex (the destructor of \<open>std::unique_lock\<close> or \<open>std::lock_guard\<close>). The
  trace records every call when it has acquired the mutex, and every application of a
  callback with its arguments and whether the mutex is held at that moment.

  \<open>std::mutex\<close> is not recursive: a call that starts while the mutex is held by the same
  thread never acquires it. Such a configuration has no successor.
\<close>

datatype 'a frame = Do "'a call" | Release

datatype 'a event = Called "'a call" | Invoked "'a cb" 'a bool

type_synonym 'a config = "'a frame list \<times> 'a rearmable \<times> 'a event list"

definition scope_exit :: "'a rearmable \<Rightarrow> 'a frame list" where
  "scope_exit s = (if mutex s then [Release] else [])"

fun step :: "'a config \<Rightarrow> 'a config option" where
  "step ([], s, tr) = None"
| "step (Release # k, s, tr) = Some (k, unlock s, tr)"
| "step (Do c # k, s, tr) =
     (if mutex s then None
      else (case perform c s of
              (s', None) \<Rightarrow> Some (scope_exit s' @ k, s', tr @ [Called c])
            | (s', Some (f, args)) \<Rightarrow>
                Some (map Do (cb_body f) @ scope_exit s' @ k, s',
                      tr @ [Called c, Invoked f args (mutex s')])))"

primrec steps :: "nat \<Rightarrow> 'a config \<Rightarrow> 'a config" where
  "steps 0 c = c"
| "steps (Suc n) c = (case step c of None \<Rightarrow> c | Some c' \<Rightarrow> steps n c')"

text \<open>The measure that shows every execution ends: a callback burns out when it fires.\<close>

primrec cb_weight :: "'a cb \<Rightarrow> nat" and call_weight :: "'a call \<Rightarrow> nat" where
  "cb_weight (Cb n b) = sum_list (map call_weight b)"
| "call_weight (Arm f) = 2 + cb_weight f"
| "call_weight (Trigger a) = 2"
| "call_weight (TriggerIfArmed a) = 2"

primrec frame_weight :: "'a frame \<Rightarrow> nat" where
  "frame_weight (Do c) = call_weight c"
| "frame_weight Release = 1"

definition weight :: "'a config \<Rightarrow> nat" where
  "weight cfg =
     (case cfg of (k, s, tr) \<Rightarrow>
        sum_list (map frame_weight k) + (case callback s of None \<Rightarrow> 0 | Some f \<Rightarrow> cb_weight f))"

lemma body_weight: "sum_list (map (frame_weight \<circ> Do) (cb_body f)) = cb_weight f"
  by (cases f) (simp add: comp_def)

lemma scope_exit_weight: "sum_list (map frame_weight (scope_exit s)) \<le> 1"
  by (simp add: scope_exit_def)

lemma step_decreases: "step c = Some c' \<Longrightarrow> weight c' < weight c"
proof -
  assume st: "step c = Some c'"
  obtain k s tr where c: "c = (k, s, tr)" by (cases c)
  show ?thesis
  proof (cases k)
    case Nil
    with st c show ?thesis by simp
  next
    case (Cons fr k')
    show ?thesis
    proof (cases fr)
      case Release
      with st c Cons show ?thesis by (auto simp: weight_def unlock_def)
    next
      case (Do cl)
      with st c Cons show ?thesis
        using scope_exit_weight [of "fst (perform cl s)"]
        by (cases cl)
           (auto simp: weight_def perform_def arm_def trigger_def triggerIfArmed_def
                       lock_def unlock_def body_weight scope_exit_def Let_def
                 split: if_splits list.splits option.splits)
    qed
  qed
qed

function run :: "'a config \<Rightarrow> 'a config" where
  "run c = (case step c of None \<Rightarrow> c | Some c' \<Rightarrow> run c')"
  by pat_completeness auto
termination
  by (relation "measure weight") (auto dest: step_decreases)

declare run.simps [simp del]

lemma run_Nil [simp]: "run ([], s, tr) = ([], s, tr)"
  by (simp add: run.simps)

lemma run_Release [simp]: "run (Release # k, s, tr) = run (k, unlock s, tr)"
  by (subst run.simps) simp

lemma run_Do [simp]:
  "run (Do c # k, s, tr) =
     (if mutex s then (Do c # k, s, tr)
      else (case perform c s of
              (s', None) \<Rightarrow> run (scope_exit s' @ k, s', tr @ [Called c])
            | (s', Some (f, args)) \<Rightarrow>
                run (map Do (cb_body f) @ scope_exit s' @ k, s',
                     tr @ [Called c, Invoked f args (mutex s')])))"
  by (subst run.simps) (simp split: prod.splits option.splits)

subsection \<open>Observing an execution\<close>

text \<open>The calls \<open>cs\<close>, made one after the other on a freshly constructed instance.\<close>

definition program :: "'a call list \<Rightarrow> 'a config" where
  "program cs = (map Do cs, fresh, [])"

definition stack_of :: "'a config \<Rightarrow> 'a frame list" where
  "stack_of c = fst c"

definition state_of :: "'a config \<Rightarrow> 'a rearmable" where
  "state_of c = fst (snd c)"

definition trace_of :: "'a config \<Rightarrow> 'a event list" where
  "trace_of c = snd (snd c)"

text \<open>The argument tuples of the callback invocations of a trace, in order.\<close>

fun invoked_args :: "'a event list \<Rightarrow> 'a list" where
  "invoked_args [] = []"
| "invoked_args (Invoked f a l # tr) = a # invoked_args tr"
| "invoked_args (Called c # tr) = invoked_args tr"

text \<open>The argument tuples of the \<open>trigger\<close> calls of a trace, in order.\<close>

fun triggered_args :: "'a event list \<Rightarrow> 'a list" where
  "triggered_args [] = []"
| "triggered_args (Called (Trigger a) # tr) = a # triggered_args tr"
| "triggered_args (e # tr) = triggered_args tr"

text \<open>A trace in which \<open>triggerIfArmed\<close> is never called.\<close>

fun arm_trigger_only :: "'a event list \<Rightarrow> bool" where
  "arm_trigger_only [] = True"
| "arm_trigger_only (Called (TriggerIfArmed a) # tr) = False"
| "arm_trigger_only (e # tr) = arm_trigger_only tr"

text \<open>The slot and the backlog are never both occupied.\<close>

definition slot_inv :: "'a rearmable \<Rightarrow> bool" where
  "slot_inv s = (callback s \<noteq> None \<longrightarrow> queue s = [])"

text \<open>Every trigger so far has either been delivered or waits in the backlog, in order.\<close>

definition balanced :: "'a config \<Rightarrow> bool" where
  "balanced c = (invoked_args (trace_of c) @ queue (state_of c) = triggered_args (trace_of c))"

text \<open>The mutex is only held by a call whose scope is about to end.\<close>

definition lock_scoped :: "'a config \<Rightarrow> bool" where
  "lock_scoped c = (case stack_of c of Release # k \<Rightarrow> True | _ \<Rightarrow> \<not> mutex (state_of c))"

definition trace_inv :: "'a config \<Rightarrow> bool" where
  "trace_inv c = (arm_trigger_only (trace_of c) \<longrightarrow> balanced c \<and> lock_scoped c)"

section \<open>runIfAlive (tensorpipe/common/callback.h)\<close>

text \<open>
  The subject is an object owned through \<open>std::shared_ptr\<close>. It is named by the address
  of its control block; \<open>use_count\<close> is the number of owning references, and the object
  has been destructed exactly when that number is \<open>0\<close>. Everything else that user code can
  read or change is the component \<open>user\<close>.
\<close>

type_synonym addr = nat

record 'u world =
  use_count :: "addr \<Rightarrow> nat"
  user :: 'u

definition alive :: "addr \<Rightarrow> 'u world \<Rightarrow> bool" where
  "alive p w = (0 < use_count w p)"

datatype error = bad_weak_ptr

text \<open>\<open>subject.shared_from_this()\<close> fails when no \<open>shared_ptr\<close> owns the subject.\<close>

definition shared_from_this :: "addr \<Rightarrow> 'u world \<Rightarrow> error + addr" where
  "shared_from_this subject w =
     (if use_count w subject = 0 then Inl bad_weak_ptr else Inr subject)"

text \<open>\<open>weak.lock()\<close>: an owning reference if the object is still there, empty otherwise.\<close>

definition weak_lock :: "addr \<Rightarrow> 'u world \<Rightarrow> addr option \<times> 'u world" where
  "weak_lock weak w =
     (if use_count w weak = 0 then (None, w)
      else (Some weak, w\<lparr>use_count := (use_count w)(weak := use_count w weak + 1)\<rparr>))"

text \<open>The end of the scope of \<open>shared\<close>.\<close>

definition release :: "addr \<Rightarrow> 'u world \<Rightarrow> 'u world" where
  "release shared w = w\<lparr>use_count := (use_count w)(shared := use_count w shared - 1)\<rparr>"

text \<open>
  The returned lambda, with its captures \<open>weak\<close> and \<open>fn\<close>. It runs on the world and on
  the list of the invocations of \<open>fn\<close> made so far, which \<open>fn\<close> itself cannot touch.
\<close>

type_synonym ('u, 'a) wrapped =
  "'a \<Rightarrow> 'u world \<times> (addr \<times> 'a) list \<Rightarrow> 'u world \<times> (addr \<times> 'a) list"

definition wrapper ::
  "addr \<Rightarrow> (addr \<Rightarrow> 'a \<Rightarrow> 'u world \<Rightarrow> 'u world) \<Rightarrow> ('u, 'a) wrapped" where
  "wrapper weak fn args wl =
     (case wl of (w, calls) \<Rightarrow>
        (case weak_lock weak w of
           (Some shared, w') \<Rightarrow> (release shared (fn shared args w'), calls @ [(shared, args)])
         | (None, w') \<Rightarrow> (w', calls)))"

definition runIfAlive ::
  "addr \<Rightarrow> (addr \<Rightarrow> 'a \<Rightarrow> 'u world \<Rightarrow> 'u world) \<Rightarrow> 'u world \<Rightarrow> error + ('u, 'a) wrapped" where
  "runIfAlive subject fn w =
     (case shared_from_this subject w of
        Inl e \<Rightarrow> Inl e
      | Inr shared \<Rightarrow> Inr (wrapper shared fn))"

text \<open>
  What happens to a wrapper over time: it is invoked, or other code runs in between (the last
  owner of the subject going away, for one). \<open>play\<close> runs such a history from a world and
  the invocations of \<open>fn\<close> made so far.
\<close>

datatype ('u, 'a) happening = Invoke 'a | Outside "'u world \<Rightarrow> 'u world"

fun play :: "('u, 'a) wrapped \<Rightarrow> ('u, 'a) happening list
               \<Rightarrow> 'u world \<times> (addr \<times> 'a) list \<Rightarrow> 'u world \<times> (addr \<times> 'a) list" where
  "play g [] wl = wl"
| "play g (Invoke args # hs) wl = play g hs (g args wl)"
| "play g (Outside h # hs) wl = play g hs (h (fst wl), snd wl)"

section \<open>Example inputs\<close>

text \<open>A function that records its argument, a world in which object 5 has one owner, and
  a world in which it has been destructed.\<close>

definition record_arg :: "addr \<Rightarrow> int \<Rightarrow> int list world \<Rightarrow> int list world" where
  "record_arg p a w = w\<lparr>user := a # user w\<rparr>"

definition owned :: "int list world" where
  "owned = \<lparr>use_count = (\<lambda>_. 0)(5 := 1), user = []\<rparr>"

definition destructed :: "int list world" where
  "destructed = \<lparr>use_count = (\<lambda>_. 0), user = []\<rparr>"

section \<open>Properties of the execution\<close>

lemmas call_defs = perform_def arm_def trigger_def triggerIfArmed_def lock_def unlock_def
  scope_exit_def Let_def

lemmas view_defs = program_def stack_of_def state_of_def trace_of_def fresh_def

lemma unlock_free: "\<not> mutex s \<Longrightarrow> s\<lparr>mutex := False\<rparr> = s"
  by simp

lemma invoked_args_append: "invoked_args (xs @ ys) = invoked_args xs @ invoked_args ys"
  by (induction xs rule: invoked_args.induct) simp_all

lemma triggered_args_append:
  "triggered_args (xs @ ys) = triggered_args xs @ triggered_args ys"
  by (induction xs rule: triggered_args.induct) simp_all

lemma arm_trigger_only_append:
  "arm_trigger_only (xs @ ys) = (arm_trigger_only xs \<and> arm_trigger_only ys)"
  by (induction xs rule: arm_trigger_only.induct) simp_all

text \<open>An execution has ended, or is stuck, after as many steps as its weight.\<close>

lemma steps_run: "weight c \<le> n \<Longrightarrow> steps n c = run c"
proof (induction n arbitrary: c)
  case 0
  have "step c = None"
  proof (cases "step c")
    case (Some c')
    from step_decreases [OF this] 0 show ?thesis by simp
  qed simp
  then show ?case by (simp add: run.simps)
next
  case (Suc n)
  show ?case
  proof (cases "step c")
    case None
    then show ?thesis by (simp add: run.simps)
  next
    case (Some c')
    from step_decreases [OF this] Suc.prems have "weight c' \<le> n" by simp
    from Suc.IH [OF this] Some show ?thesis by (simp add: run.simps)
  qed
qed

lemma run_final: "step (run c) = None"
proof (induction c rule: run.induct)
  case (1 c)
  show ?case
  proof (cases "step c")
    case None
    then show ?thesis by (simp add: run.simps)
  next
    case (Some c')
    with 1 show ?thesis by (simp add: run.simps)
  qed
qed

text \<open>The events already in the trace have no influence on what happens next.\<close>

lemma step_trace:
  "step (k, s, tr0 @ tr) = map_option (\<lambda>(k', s', tr'). (k', s', tr0 @ tr')) (step (k, s, tr))"
  by (cases "(k, s, tr)" rule: step.cases) (auto split: prod.splits option.splits)

lemma run_trace:
  "run (k, s, tr0 @ tr) = (case run (k, s, tr) of (k', s', tr') \<Rightarrow> (k', s', tr0 @ tr'))"
proof (induction "(k, s, tr)" arbitrary: k s tr rule: run.induct)
  case 1
  show ?case
  proof (cases "step (k, s, tr)")
    case None
    then show ?thesis
      by (subst (1 2) run.simps) (simp add: step_trace)
  next
    case (Some c')
    obtain k' s' tr' where c': "c' = (k', s', tr')" by (cases c')
    from 1 [OF Some [unfolded c']] Some c' show ?thesis
      by (subst (1 2) run.simps) (simp add: step_trace)
  qed
qed

subsection \<open>Where the mutex is when a callback is applied\<close>

lemma arm_invokes_unlocked: "arm f s = (s', Some (g, args)) \<Longrightarrow> \<not> mutex s'"
  by (auto simp: arm_def lock_def unlock_def Let_def split: list.splits)

lemma trigger_invokes_unlocked: "trigger args s = (s', Some (g, args')) \<Longrightarrow> \<not> mutex s'"
  by (auto simp: trigger_def lock_def unlock_def Let_def split: option.splits)

lemma triggerIfArmed_invokes_locked:
  "triggerIfArmed args s = (s', Some (g, args')) \<Longrightarrow> mutex s'"
  by (auto simp: triggerIfArmed_def lock_def Let_def split: option.splits)

text \<open>Apart from the mutex, an armed instance reacts alike to both kinds of trigger.\<close>

lemma triggerIfArmed_trigger_armed:
  "callback s = Some f \<Longrightarrow>
   snd (triggerIfArmed args s) = snd (trigger args s) \<and>
   callback (fst (triggerIfArmed args s)) = callback (fst (trigger args s)) \<and>
   queue (fst (triggerIfArmed args s)) = queue (fst (trigger args s)) \<and>
   mutex (fst (triggerIfArmed args s)) \<and> \<not> mutex (fst (trigger args s))"
  by (simp add: triggerIfArmed_def trigger_def lock_def unlock_def)

subsection \<open>Invariants\<close>

lemma perform_slot_inv: "slot_inv s \<Longrightarrow> slot_inv (fst (perform c s))"
  by (cases c)
     (auto simp: slot_inv_def perform_def arm_def trigger_def triggerIfArmed_def lock_def
                 unlock_def Let_def split: list.splits option.splits)

lemma step_slot_inv:
  assumes "step c = Some c'" and "slot_inv (state_of c)"
  shows "slot_inv (state_of c')"
proof -
  obtain k s tr where c: "c = (k, s, tr)" by (cases c)
  show ?thesis
  proof (cases k)
    case Nil
    with assms c show ?thesis by simp
  next
    case (Cons fr k')
    show ?thesis
    proof (cases fr)
      case Release
      with assms c Cons show ?thesis by (auto simp: state_of_def slot_inv_def unlock_def)
    next
      case (Do cl)
      with assms c Cons perform_slot_inv [of s cl] show ?thesis
        by (auto simp: state_of_def split: if_splits prod.splits option.splits)
    qed
  qed
qed

lemma steps_slot_inv: "slot_inv (state_of c) \<Longrightarrow> slot_inv (state_of (steps n c))"
  by (induction n arbitrary: c) (auto split: option.splits dest: step_slot_inv)

lemma step_trace_inv:
  assumes st: "step c = Some c'" and si: "slot_inv (state_of c)" and ti: "trace_inv c"
  shows "trace_inv c'"
proof -
  obtain k s tr where c: "c = (k, s, tr)" by (cases c)
  show ?thesis
  proof (cases k)
    case Nil
    with st c show ?thesis by simp
  next
    case (Cons fr k')
    show ?thesis
    proof (cases fr)
      case Release
      with st c Cons ti show ?thesis
        by (auto simp: trace_inv_def balanced_def lock_scoped_def state_of_def trace_of_def
                       stack_of_def unlock_def split: list.splits frame.splits)
    next
      case (Do cl)
      with st c Cons ti si show ?thesis
        by (cases cl)
           (auto simp: trace_inv_def balanced_def lock_scoped_def state_of_def trace_of_def
                       stack_of_def slot_inv_def perform_def arm_def trigger_def
                       triggerIfArmed_def lock_def unlock_def scope_exit_def Let_def
                       invoked_args_append triggered_args_append arm_trigger_only_append
                 split: if_splits list.splits option.splits frame.splits)
    qed
  qed
qed

lemma steps_trace_inv:
  "slot_inv (state_of c) \<Longrightarrow> trace_inv c \<Longrightarrow> trace_inv (steps n c)"
proof (induction n arbitrary: c)
  case 0
  then show ?case by simp
next
  case (Suc n)
  show ?case
  proof (cases "step c")
    case None
    with Suc.prems show ?thesis by simp
  next
    case (Some c')
    from step_slot_inv [OF Some Suc.prems(1)] step_trace_inv [OF Some Suc.prems]
    have "trace_inv (steps n c')" by (rule Suc.IH)
    with Some show ?thesis by simp
  qed
qed

lemma program_slot_inv: "slot_inv (state_of (program cs))"
  by (simp add: slot_inv_def view_defs)

lemma program_trace_inv: "trace_inv (program cs)"
  by (cases cs) (simp_all add: trace_inv_def balanced_def lock_scoped_def view_defs)

lemma finished_if_scoped: "step c = None \<Longrightarrow> lock_scoped c \<Longrightarrow> stack_of c = []"
  by (cases c rule: step.cases)
     (auto simp: lock_scoped_def stack_of_def state_of_def
           split: if_splits prod.splits option.splits)

subsection \<open>The wrapper of runIfAlive\<close>

lemma runIfAlive_wrapper: "runIfAlive subject fn w0 = Inr g \<Longrightarrow> g = wrapper subject fn"
  by (auto simp: runIfAlive_def shared_from_this_def split: if_splits)

lemma wrapper_dead: "\<not> alive p w \<Longrightarrow> wrapper p fn a (w, calls) = (w, calls)"
  by (simp add: wrapper_def weak_lock_def alive_def)

lemma wrapper_alive_eq:
  "alive p w \<Longrightarrow>
   wrapper p fn a (w, calls) = (release p (fn p a (snd (weak_lock p w))), calls @ [(p, a)])"
  by (simp add: wrapper_def weak_lock_def alive_def)

lemma play_append: "play g (xs @ ys) wl = play g ys (play g xs wl)"
  by (induction g xs wl rule: play.induct) simp_all

lemma play_wrapper_dead:
  "\<not> alive p w \<Longrightarrow> play (wrapper p fn) (map Invoke as) (w, calls) = (w, calls)"
  by (induction as) (simp_all add: wrapper_dead)

section \<open>The claims\<close>

text \<open>
  Claim C1: each of \<open>arm\<close>, \<open>trigger\<close> and \<open>triggerIfArmed\<close> has released the mutex
  before the body of a callback it invokes starts, so that the callback may call \<open>arm\<close> or
  \<open>trigger\<close> on the same instance without deadlocking.

  \<open>arm\<close> and \<open>trigger\<close> unlock first (\<open>arm_invokes_unlocked\<close>,
  \<open>trigger_invokes_unlocked\<close>). \<open>triggerIfArmed\<close> takes a \<open>std::lock_guard\<close> and
  applies the callback inside its scope (\<open>triggerIfArmed_invokes_locked\<close>). On a fresh
  instance, \<open>arm(f)\<close> with \<open>f\<close> a callback that arms again, then \<open>triggerIfArmed(7)\<close>:
  \<open>f\<close> is applied to 7 with the mutex held, and the \<open>arm\<close> it calls never acquires the
  mutex; the execution is stuck with that call and the release still to do.
\<close>

theorem triggerIfArmed_invokes_under_lock:
  "run (program [Arm (Cb 0 [Arm (Cb 1 [])]), TriggerIfArmed 7])
     = ([Do (Arm (Cb 1 [])), Release],
        \<lparr>mutex = True, callback = None, queue = [] :: int list\<rparr>,
        [Called (Arm (Cb 0 [Arm (Cb 1 [])])), Called (TriggerIfArmed 7),
         Invoked (Cb 0 [Arm (Cb 1 [])]) 7 True])"
  by (simp add: call_defs view_defs)

text \<open>
  Claim C2, as stated: after any finite sequence of \<open>arm\<close> and \<open>trigger\<close> calls on a fresh
  instance, the number of callback invocations equals the number of \<open>trigger\<close> calls.
  After the single call \<open>trigger(1)\<close> there has been one trigger call and no invocation.
\<close>

theorem invocations_equal_triggers_counterexample:
  "length (invoked_args (trace_of (run (program [Trigger (1::int)]))))
     \<noteq> length (triggered_args (trace_of (run (program [Trigger (1::int)]))))"
  by (simp add: call_defs view_defs)

text \<open>
  Claim C2, amended: at every moment of an execution of \<open>arm\<close> and \<open>trigger\<close> calls on a
  fresh instance (calls made by callbacks included), the argument tuples of the invocations
  made so far, in order, followed by the backlog, are exactly the argument tuples of the
  \<open>trigger\<close> calls made so far, in order. So every invocation receives the arguments of one
  distinct earlier \<open>trigger\<close> call, oldest first, and the number of invocations is the
  number of \<open>trigger\<close> calls minus the length of the backlog. Such an execution always
  runs to its end: no call is left on the stack.
\<close>

theorem invocations_are_oldest_triggers:
  assumes "arm_trigger_only (trace_of (steps n (program cs)))"
  shows "invoked_args (trace_of (steps n (program cs))) @ queue (state_of (steps n (program cs)))
           = triggered_args (trace_of (steps n (program cs))) \<and>
         length (invoked_args (trace_of (steps n (program cs))))
           + length (queue (state_of (steps n (program cs))))
           = length (triggered_args (trace_of (steps n (program cs)))) \<and>
         (weight (program cs) \<le> n \<longrightarrow>
            steps n (program cs) = run (program cs) \<and> stack_of (run (program cs)) = [])"
proof -
  let ?c = "steps n (program cs)"
  from steps_trace_inv [OF program_slot_inv program_trace_inv, of n cs] assms
  have b: "balanced ?c" and l: "lock_scoped ?c" by (simp_all add: trace_inv_def)
  from b have e: "invoked_args (trace_of ?c) @ queue (state_of ?c) = triggered_args (trace_of ?c)"
    by (simp add: balanced_def)
  from arg_cong [OF e, of length]
  have n: "length (invoked_args (trace_of ?c)) + length (queue (state_of ?c))
             = length (triggered_args (trace_of ?c))"
    by simp
  have "?c = run (program cs) \<and> stack_of (run (program cs)) = []"
    if "weight (program cs) \<le> n"
  proof -
    from that have r: "?c = run (program cs)" by (rule steps_run)
    with l have "lock_scoped (run (program cs))" by simp
    with run_final have "stack_of (run (program cs)) = []" by (rule finished_if_scoped)
    with r show ?thesis by simp
  qed
  with e n show ?thesis by blast
qed

theorem invocations_are_oldest_triggers_witness:
  "arm_trigger_only (trace_of (steps 12 (program
      [Trigger (1::int), Arm (Cb 0 [Trigger 4]), Trigger 2, Trigger 3, Arm (Cb 1 [])]))) \<and>
   weight (program [Trigger (1::int), Arm (Cb 0 [Trigger 4]), Trigger 2, Trigger 3, Arm (Cb 1 [])])
     \<le> 12 \<and>
   invoked_args (trace_of (steps 12 (program
      [Trigger (1::int), Arm (Cb 0 [Trigger 4]), Trigger 2, Trigger 3, Arm (Cb 1 [])])))
     = [1, 4] \<and>
   queue (state_of (steps 12 (program
      [Trigger (1::int), Arm (Cb 0 [Trigger 4]), Trigger 2, Trigger 3, Arm (Cb 1 [])])))
     = [2, 3] \<and>
   triggered_args (trace_of (steps 12 (program
      [Trigger (1::int), Arm (Cb 0 [Trigger 4]), Trigger 2, Trigger 3, Arm (Cb 1 [])])))
     = [1, 4, 2, 3] \<and>
   stack_of (run (program
      [Trigger (1::int), Arm (Cb 0 [Trigger 4]), Trigger 2, Trigger 3, Arm (Cb 1 [])])) = []"
proof -
  let ?cs = "[Trigger (1::int), Arm (Cb 0 [Trigger 4]), Trigger 2, Trigger 3, Arm (Cb 1 [])]"
  have h: "arm_trigger_only (trace_of (steps 12 (program ?cs)))"
    by (simp add: call_defs view_defs eval_nat_numeral)
  have w: "weight (program ?cs) \<le> 12"
    by (simp add: weight_def view_defs)
  have i: "invoked_args (trace_of (steps 12 (program ?cs))) = [1, 4]"
    by (simp add: call_defs view_defs eval_nat_numeral)
  have q: "queue (state_of (steps 12 (program ?cs))) = [2, 3]"
    by (simp add: call_defs view_defs eval_nat_numeral)
  note t = invocations_are_oldest_triggers [OF h]
  from t have "invoked_args (trace_of (steps 12 (program ?cs)))
                 @ queue (state_of (steps 12 (program ?cs)))
               = triggered_args (trace_of (steps 12 (program ?cs)))"
    by (rule conjunct1)
  then have a: "triggered_args (trace_of (steps 12 (program ?cs))) = [1, 4, 2, 3]"
    unfolding i q by simp
  from t w have r: "stack_of (run (program ?cs)) = []" by blast
  from h w i q a r show ?thesis by blast
qed

text \<open>
  Claim C3: in every state reached from the fresh instance by calls of \<open>arm\<close>,
  \<open>trigger\<close> and \<open>triggerIfArmed\<close>, in any order and by any caller (a second \<open>arm\<close>
  while armed included), an occupied slot means an empty backlog.
\<close>

theorem armed_implies_empty_backlog:
  "callback (state_of (steps n (program cs))) \<noteq> None \<Longrightarrow>
   queue (state_of (steps n (program cs))) = []"
  using steps_slot_inv [OF program_slot_inv, of n cs]
  by (simp add: slot_inv_def)

theorem armed_implies_empty_backlog_witness:
  "callback (state_of (steps 7 (program
      [Trigger (1::int), Arm (Cb 0 []), Arm (Cb 1 []), Arm (Cb 2 [])]))) = Some (Cb 2 []) \<and>
   queue (state_of (steps 7 (program
      [Trigger (1::int), Arm (Cb 0 []), Arm (Cb 1 []), Arm (Cb 2 [])]))) = []"
proof -
  let ?cs = "[Trigger (1::int), Arm (Cb 0 []), Arm (Cb 1 []), Arm (Cb 2 [])]"
  have h: "callback (state_of (steps 7 (program ?cs))) = Some (Cb 2 [])"
    by (simp add: call_defs view_defs eval_nat_numeral)
  then have "callback (state_of (steps 7 (program ?cs))) \<noteq> None" by simp
  then have "queue (state_of (steps 7 (program ?cs))) = []"
    by (rule armed_implies_empty_backlog)
  with h show ?thesis by (rule conjI)
qed

text \<open>
  Claim C4: \<open>arm(f)\<close> with a non-empty backlog removes the front entry and nothing else,
  leaves the slot as it is, and applies \<open>f\<close> to that entry inside the call, with the mutex
  released; the body of \<open>f\<close> runs before anything that follows the call. With an empty
  backlog it stores \<open>f\<close> in the slot and invokes nothing. After \<open>trigger(1)\<close>,
  \<open>trigger(2)\<close>, \<open>arm(f)\<close> invokes \<open>f(1)\<close> and a following \<open>arm(g)\<close> invokes \<open>g(2)\<close>.
\<close>

theorem arm_effect:
  "\<not> mutex s \<Longrightarrow>
   (queue s = args # rest \<longrightarrow>
      step (Do (Arm f) # k, s, tr)
        = Some (map Do (cb_body f) @ k, s\<lparr>queue := rest\<rparr>,
                tr @ [Called (Arm f), Invoked f args False])) \<and>
   (queue s = [] \<longrightarrow>
      steps 2 (Do (Arm f) # k, s, tr) = (k, s\<lparr>callback := Some f\<rparr>, tr @ [Called (Arm f)])) \<and>
   run (program [Trigger 1, Trigger 2, Arm (Cb i []), Arm (Cb j [])])
     = ([], fresh :: int rearmable,
        [Called (Trigger 1), Called (Trigger 2),
         Called (Arm (Cb i [])), Invoked (Cb i []) 1 False,
         Called (Arm (Cb j [])), Invoked (Cb j []) 2 False])"
  by (simp add: call_defs view_defs numeral_2_eq_2)

theorem arm_effect_witness:
  "\<not> mutex \<lparr>mutex = False, callback = None, queue = [1, 2 :: int]\<rparr> \<and>
   queue \<lparr>mutex = False, callback = None, queue = [1, 2 :: int]\<rparr> = 1 # [2] \<and>
   step ([Do (Arm (Cb 0 [Trigger 3]))], \<lparr>mutex = False, callback = None, queue = [1, 2 :: int]\<rparr>, [])
     = Some ([Do (Trigger 3)], \<lparr>mutex = False, callback = None, queue = [2]\<rparr>,
             [Called (Arm (Cb 0 [Trigger 3])), Invoked (Cb 0 [Trigger 3]) 1 False]) \<and>
   \<not> mutex \<lparr>mutex = False, callback = None, queue = [] :: int list\<rparr> \<and>
   queue \<lparr>mutex = False, callback = None, queue = [] :: int list\<rparr> = [] \<and>
   steps 2 ([Do (Arm (Cb 0 [Trigger 3]))], \<lparr>mutex = False, callback = None, queue = [] :: int list\<rparr>, [])
     = ([], \<lparr>mutex = False, callback = Some (Cb 0 [Trigger 3]), queue = []\<rparr>,
        [Called (Arm (Cb 0 [Trigger 3]))])"
  using arm_effect [of "\<lparr>mutex = False, callback = None, queue = [1, 2 :: int]\<rparr>" 1 "[2]"
                       "Cb 0 [Trigger 3]" "[]" "[]"]
        arm_effect [of "\<lparr>mutex = False, callback = None, queue = [] :: int list\<rparr>" 1 "[]"
                       "Cb 0 [Trigger 3]" "[]" "[]"]
  by simp

text \<open>
  Claim C5: \<open>trigger(args)\<close> with an occupied slot empties the slot and applies its callback
  to \<open>args\<close>, once, inside the call, the backlog unchanged; with an empty slot it appends
  \<open>args\<close> at the back of the backlog and invokes nothing.
\<close>

theorem trigger_effect:
  "\<not> mutex s \<Longrightarrow>
   (callback s = Some f \<longrightarrow>
      step (Do (Trigger args) # k, s, tr)
        = Some (map Do (cb_body f) @ k, s\<lparr>callback := None\<rparr>,
                tr @ [Called (Trigger args), Invoked f args False])) \<and>
   (callback s = None \<longrightarrow>
      steps 2 (Do (Trigger args) # k, s, tr)
        = (k, s\<lparr>queue := queue s @ [args]\<rparr>, tr @ [Called (Trigger args)]))"
  by (simp add: call_defs numeral_2_eq_2)

theorem trigger_effect_witness:
  "\<not> mutex \<lparr>mutex = False, callback = Some (Cb 0 [Arm (Cb 1 [])]), queue = [] :: int list\<rparr> \<and>
   callback \<lparr>mutex = False, callback = Some (Cb 0 [Arm (Cb 1 [])]), queue = [] :: int list\<rparr>
     = Some (Cb 0 [Arm (Cb 1 [])]) \<and>
   step ([Do (Trigger 7)],
         \<lparr>mutex = False, callback = Some (Cb 0 [Arm (Cb 1 [])]), queue = [] :: int list\<rparr>, [])
     = Some ([Do (Arm (Cb 1 []))], \<lparr>mutex = False, callback = None, queue = []\<rparr>,
             [Called (Trigger 7), Invoked (Cb 0 [Arm (Cb 1 [])]) 7 False]) \<and>
   \<not> mutex \<lparr>mutex = False, callback = None, queue = [5 :: int]\<rparr> \<and>
   callback \<lparr>mutex = False, callback = None, queue = [5 :: int]\<rparr> = None \<and>
   steps 2 ([Do (Trigger 7)], \<lparr>mutex = False, callback = None, queue = [5 :: int]\<rparr>, [])
     = ([], \<lparr>mutex = False, callback = None, queue = [5, 7]\<rparr>, [Called (Trigger 7)])"
  using trigger_effect [of "\<lparr>mutex = False, callback = Some (Cb 0 [Arm (Cb 1 [])]), queue = [] :: int list\<rparr>"
                           "Cb 0 [Arm (Cb 1 [])]" 7 "[]" "[]"]
        trigger_effect [of "\<lparr>mutex = False, callback = None, queue = [5 :: int]\<rparr>"
                           "Cb 0 []" 7 "[]" "[]"]
  by simp

text \<open>
  Claim C6: \<open>triggerIfArmed(args)\<close> with an empty slot invokes nothing and changes neither
  the slot nor the backlog: it only takes the mutex and gives it back. Whatever follows the
  call ends in the same state and makes the same invocations as it would without the call,
  so \<open>args\<close> is never delivered.
\<close>

theorem triggerIfArmed_unarmed_noop:
  "callback s = None \<Longrightarrow>
   triggerIfArmed args s = (lock s, None) \<and>
   (\<not> mutex s \<longrightarrow>
      steps 2 (Do (TriggerIfArmed args) # k, s, tr)
        = (k, s, tr @ [Called (TriggerIfArmed args)]) \<and>
      stack_of (run (Do (TriggerIfArmed args) # k, s, tr)) = stack_of (run (k, s, tr)) \<and>
      state_of (run (Do (TriggerIfArmed args) # k, s, tr)) = state_of (run (k, s, tr)) \<and>
      invoked_args (trace_of (run (Do (TriggerIfArmed args) # k, s, tr)))
        = invoked_args (trace_of (run (k, s, tr))))"
proof -
  assume u: "callback s = None"
  have a: "triggerIfArmed args s = (lock s, None)"
    using u by (simp add: call_defs)
  have b: "steps 2 (Do (TriggerIfArmed args) # k, s, tr)
             = (k, s, tr @ [Called (TriggerIfArmed args)])"
    if "\<not> mutex s"
    using u that by (simp add: call_defs numeral_2_eq_2)
  have r: "run (Do (TriggerIfArmed args) # k, s, tr)
             = run (k, s, tr @ [Called (TriggerIfArmed args)])"
    if "\<not> mutex s"
    using u that by (simp add: call_defs unlock_free)
  obtain k' s' tr' where f: "run (k, s, []) = (k', s', tr')"
    by (cases "run (k, s, [])")
  have r1: "run (k, s, tr) = (k', s', tr @ tr')"
    using run_trace [of k s tr "[]"] f by simp
  have r2: "run (k, s, tr @ [Called (TriggerIfArmed args)])
              = (k', s', tr @ Called (TriggerIfArmed args) # tr')"
    using run_trace [of k s "tr @ [Called (TriggerIfArmed args)]" "[]"] f by simp
  from a b r r1 r2 show ?thesis
    by (simp add: stack_of_def state_of_def trace_of_def invoked_args_append)
qed

theorem triggerIfArmed_unarmed_noop_witness:
  "callback \<lparr>mutex = False, callback = None, queue = [5 :: int]\<rparr> = None \<and>
   \<not> mutex \<lparr>mutex = False, callback = None, queue = [5 :: int]\<rparr> \<and>
   steps 2 ([Do (TriggerIfArmed 9), Do (Arm (Cb 0 []))],
            \<lparr>mutex = False, callback = None, queue = [5 :: int]\<rparr>, [])
     = ([Do (Arm (Cb 0 []))], \<lparr>mutex = False, callback = None, queue = [5]\<rparr>,
        [Called (TriggerIfArmed 9)]) \<and>
   invoked_args (trace_of (run ([Do (TriggerIfArmed 9), Do (Arm (Cb 0 []))],
            \<lparr>mutex = False, callback = None, queue = [5 :: int]\<rparr>, []))) = [5]"
proof -
  let ?s = "\<lparr>mutex = False, callback = None, queue = [5 :: int]\<rparr>"
  have h: "callback ?s = None" and m: "\<not> mutex ?s" by simp_all
  note t = triggerIfArmed_unarmed_noop [OF h, of 9 "[Do (Arm (Cb 0 []))]" "[]"]
  from t m have a: "steps 2 ([Do (TriggerIfArmed 9), Do (Arm (Cb 0 []))], ?s, [])
                      = ([Do (Arm (Cb 0 []))], ?s, [Called (TriggerIfArmed 9)])"
    by simp
  from t m have "invoked_args (trace_of (run ([Do (TriggerIfArmed 9), Do (Arm (Cb 0 []))], ?s, [])))
                   = invoked_args (trace_of (run ([Do (Arm (Cb 0 []))], ?s, [])))"
    by blast
  also have "\<dots> = [5]" by (simp add: call_defs view_defs)
  finally show ?thesis using h m a by blast
qed

text \<open>
  Claim C7: with an occupied slot, \<open>triggerIfArmed(args)\<close> has the same observable effect
  as \<open>trigger(args)\<close> from the same state.

  Slot, backlog and the callback applied agree (\<open>triggerIfArmed_trigger_armed\<close>), but
  \<open>triggerIfArmed\<close> applies the callback with the mutex held. With a slot that holds a
  callback \<open>f\<close> that arms \<open>g\<close>: \<open>trigger(7)\<close> returns with \<open>g\<close> in the slot, while
  \<open>triggerIfArmed(7)\<close> is stuck in \<open>f\<close>, the slot empty and the mutex held.
\<close>

theorem triggerIfArmed_differs_from_trigger:
  "run ([Do (Trigger 7)],
        \<lparr>mutex = False, callback = Some (Cb 0 [Arm (Cb 1 [])]), queue = []\<rparr>, [])
     = ([], \<lparr>mutex = False, callback = Some (Cb 1 []), queue = [] :: int list\<rparr>,
        [Called (Trigger 7), Invoked (Cb 0 [Arm (Cb 1 [])]) 7 False, Called (Arm (Cb 1 []))]) \<and>
   run ([Do (TriggerIfArmed 7)],
        \<lparr>mutex = False, callback = Some (Cb 0 [Arm (Cb 1 [])]), queue = []\<rparr>, [])
     = ([Do (Arm (Cb 1 [])), Release],
        \<lparr>mutex = True, callback = None, queue = [] :: int list\<rparr>,
        [Called (TriggerIfArmed 7), Invoked (Cb 0 [Arm (Cb 1 [])]) 7 True])"
  by (simp add: call_defs)

text \<open>
  Claim C8: a wrapper made by \<open>runIfAlive(subject, fn)\<close>, invoked while the subject is
  alive, invokes \<open>fn\<close> once, on the subject, which is owned for the duration of the call,
  and with the arguments given; invoked after the subject was destructed it does not invoke
  \<open>fn\<close>, cannot fail and changes nothing.
\<close>

theorem runIfAlive_guards:
  assumes "runIfAlive subject fn w0 = Inr g"
  shows "(alive subject w \<longrightarrow>
            alive subject (snd (weak_lock subject w)) \<and>
            g args (w, calls)
              = (release subject (fn subject args (snd (weak_lock subject w))),
                 calls @ [(subject, args)])) \<and>
         (\<not> alive subject w \<longrightarrow> g args (w, calls) = (w, calls))"
  using runIfAlive_wrapper [OF assms]
  by (simp add: wrapper_def weak_lock_def alive_def)

theorem runIfAlive_guards_witness:
  "runIfAlive 5 record_arg owned = Inr (wrapper 5 record_arg) \<and>
   alive 5 owned \<and>
   wrapper 5 record_arg 7 (owned, []) = (owned\<lparr>user := [7]\<rparr>, [(5, 7)]) \<and>
   \<not> alive 5 destructed \<and>
   wrapper 5 record_arg 7 (destructed, []) = (destructed, [])"
proof -
  have h: "runIfAlive 5 record_arg owned = Inr (wrapper 5 record_arg)"
    by (simp add: runIfAlive_def shared_from_this_def owned_def)
  have a: "alive 5 owned" and d: "\<not> alive 5 destructed"
    by (simp_all add: alive_def owned_def destructed_def)
  from runIfAlive_guards [OF h, of owned 7 "[]"] a
  have "wrapper 5 record_arg 7 (owned, [])
          = (release 5 (record_arg 5 7 (snd (weak_lock 5 owned))), [] @ [(5, 7)])"
    by blast
  then have x: "wrapper 5 record_arg 7 (owned, []) = (owned\<lparr>user := [7]\<rparr>, [(5, 7)])"
    by (simp add: release_def weak_lock_def record_arg_def owned_def)
  from runIfAlive_guards [OF h, of destructed 7 "[]"] d
  have y: "wrapper 5 record_arg 7 (destructed, []) = (destructed, [])" by blast
  from h a x d y show ?thesis by blast
qed

text \<open>
  Claim C9: \<open>arm(f2)\<close> while the slot holds \<open>f1\<close> and the backlog is empty puts \<open>f2\<close> in
  the slot. The call returns, nothing is invoked, and the outcome is the one of the same call
  on an empty slot: \<open>f1\<close> is gone without having run.
\<close>

theorem double_arm_overwrites:
  "\<not> mutex s \<Longrightarrow> callback s = Some f1 \<Longrightarrow> queue s = [] \<Longrightarrow>
   steps 2 (Do (Arm f2) # k, s, tr) = (k, s\<lparr>callback := Some f2\<rparr>, tr @ [Called (Arm f2)]) \<and>
   steps 2 (Do (Arm f2) # k, s, tr) = steps 2 (Do (Arm f2) # k, s\<lparr>callback := None\<rparr>, tr)"
  by (simp add: call_defs numeral_2_eq_2)

theorem double_arm_overwrites_witness:
  "\<not> mutex \<lparr>mutex = False, callback = Some (Cb 1 []), queue = [] :: int list\<rparr> \<and>
   callback \<lparr>mutex = False, callback = Some (Cb 1 []), queue = [] :: int list\<rparr> = Some (Cb 1 []) \<and>
   queue \<lparr>mutex = False, callback = Some (Cb 1 []), queue = [] :: int list\<rparr> = [] \<and>
   steps 2 ([Do (Arm (Cb 2 [])), Do (Trigger 7)],
            \<lparr>mutex = False, callback = Some (Cb 1 []), queue = [] :: int list\<rparr>, [])
     = ([Do (Trigger 7)], \<lparr>mutex = False, callback = Some (Cb 2 []), queue = []\<rparr>,
        [Called (Arm (Cb 2 []))])"
  using double_arm_overwrites [of "\<lparr>mutex = False, callback = Some (Cb 1 []), queue = [] :: int list\<rparr>"
                                  "Cb 1 []" "Cb 2 []" "[Do (Trigger 7)]" "[]"]
  by simp

text \<open>
  Claim C10: the wrapper of \<open>runIfAlive\<close> is not one-shot. After any history of earlier
  invocations and of other code running in between, one more invocation tries to lock the
  weak pointer anew, in the world as it is then. If the subject is alive then, \<open>fn\<close> runs once
  more: the world is the one \<open>fn\<close> returns for the subject and the arguments given, between
  taking and giving back an owning reference, and the invocations of \<open>fn\<close> are one more. If
  the subject has been destructed, nothing changes; so any number of invocations after the
  destruction leave everything as it is.
\<close>

theorem runIfAlive_reusable:
  assumes "runIfAlive subject fn w0 = Inr g"
  shows "(alive subject (fst (play g hs wl)) \<longrightarrow>
            play g (hs @ [Invoke args]) wl
              = (release subject
                   (fn subject args (snd (weak_lock subject (fst (play g hs wl))))),
                 snd (play g hs wl) @ [(subject, args)])) \<and>
         (\<not> alive subject (fst (play g hs wl)) \<longrightarrow>
            play g (hs @ [Invoke args]) wl = play g hs wl) \<and>
         (\<not> alive subject w \<longrightarrow> play g (map Invoke as) (w, calls) = (w, calls))"
proof -
  from assms have g: "g = wrapper subject fn" by (rule runIfAlive_wrapper)
  obtain w' calls' where p: "play g hs wl = (w', calls')" by (cases "play g hs wl")
  have one: "play g (hs @ [Invoke args]) wl = g args (w', calls')"
    by (simp add: play_append p)
  have a: "g args (w', calls')
             = (release subject (fn subject args (snd (weak_lock subject w'))),
                calls' @ [(subject, args)])"
    if "alive subject w'"
    using that unfolding g by (rule wrapper_alive_eq)
  have d: "g args (w', calls') = (w', calls')" if "\<not> alive subject w'"
    using that unfolding g by (rule wrapper_dead)
  have n: "play g (map Invoke as) (w, calls) = (w, calls)" if "\<not> alive subject w"
    using that unfolding g by (rule play_wrapper_dead)
  from one a d n p show ?thesis by simp
qed

theorem runIfAlive_reusable_witness:
  "runIfAlive 5 record_arg owned = Inr (wrapper 5 record_arg) \<and>
   alive 5 (fst (play (wrapper 5 record_arg) [Invoke 7] (owned, []))) \<and>
   play (wrapper 5 record_arg) [Invoke 7, Invoke 8] (owned, [])
     = (owned\<lparr>user := [8, 7]\<rparr>, [(5, 7), (5, 8)]) \<and>
   \<not> alive 5 (fst (play (wrapper 5 record_arg)
                     [Invoke 7, Invoke 8, Outside (release 5)] (owned, []))) \<and>
   play (wrapper 5 record_arg) [Invoke 7, Invoke 8, Outside (release 5), Invoke 9] (owned, [])
     = (destructed\<lparr>user := [8, 7]\<rparr>, [(5, 7), (5, 8)]) \<and>
   \<not> alive 5 destructed \<and>
   play (wrapper 5 record_arg) (map Invoke [7, 8, 9]) (destructed, []) = (destructed, [])"
proof -
  let ?g = "wrapper 5 record_arg"
  have h: "runIfAlive 5 record_arg owned = Inr ?g"
    by (simp add: runIfAlive_def shared_from_this_def owned_def)
  have p1: "play ?g [Invoke 7] (owned, []) = (owned\<lparr>user := [7]\<rparr>, [(5, 7)])"
    by (simp add: wrapper_def weak_lock_def release_def record_arg_def owned_def)
  have a: "alive 5 (fst (play ?g [Invoke 7] (owned, [])))"
    unfolding p1 by (simp add: alive_def owned_def)
  from runIfAlive_reusable [OF h, of "[Invoke 7]" "(owned, [])" 8] a
  have "play ?g ([Invoke 7] @ [Invoke 8]) (owned, [])
          = (release 5 (record_arg 5 8 (snd (weak_lock 5 (fst (play ?g [Invoke 7] (owned, [])))))),
             snd (play ?g [Invoke 7] (owned, [])) @ [(5, 8)])"
    by blast
  then have p2: "play ?g [Invoke 7, Invoke 8] (owned, [])
                   = (owned\<lparr>user := [8, 7]\<rparr>, [(5, 7), (5, 8)])"
    unfolding p1 by (simp add: weak_lock_def release_def record_arg_def owned_def)
  have p3: "play ?g [Invoke 7, Invoke 8, Outside (release 5)] (owned, [])
              = (destructed\<lparr>user := [8, 7]\<rparr>, [(5, 7), (5, 8)])"
    using p2 play_append [of ?g "[Invoke 7, Invoke 8]" "[Outside (release 5)]" "(owned, [])"]
    by (simp add: release_def owned_def destructed_def fun_eq_iff)
  have d: "\<not> alive 5 (fst (play ?g [Invoke 7, Invoke 8, Outside (release 5)] (owned, [])))"
    unfolding p3 by (simp add: alive_def destructed_def)
  from runIfAlive_reusable [OF h, of "[Invoke 7, Invoke 8, Outside (release 5)]" "(owned, [])" 9] d
  have "play ?g ([Invoke 7, Invoke 8, Outside (release 5)] @ [Invoke 9]) (owned, [])
          = play ?g [Invoke 7, Invoke 8, Outside (release 5)] (owned, [])"
    by blast
  then have p4: "play ?g [Invoke 7, Invoke 8, Outside (release 5), Invoke 9] (owned, [])
                   = (destructed\<lparr>user := [8, 7]\<rparr>, [(5, 7), (5, 8)])"
    unfolding p3 by simp
  have dd: "\<not> alive 5 destructed" by (simp add: alive_def destructed_def)
  from runIfAlive_reusable [OF h, of _ _ _ destructed "[7, 8, 9]" "[]"] dd
  have p5: "play ?g (map Invoke [7, 8, 9]) (destructed, []) = (destructed, [])" by blast
  from h a p2 d p4 dd p5 show ?thesis by blast
qed

end
